theory Spec2Isabelle
  imports Complex_Main "HOL-Library.AList"
begin

section \<open>The ride registry of the Chaindrive backend\<close>

text \<open>
  The backend is one Motoko actor, \<^verbatim>\<open>RideBackend\<close>, holding a counter \<^verbatim>\<open>nextRideId\<close> and a
  hash map \<^verbatim>\<open>rides\<close> from ride ids to ride records. A message to the actor runs one public
  function from start to end (none of them awaits), so a call is a function from the state
  before to a reply and the state after.

  \<^item> \<^verbatim>\<open>Nat\<close> and \<^verbatim>\<open>Int\<close> are unbounded in Motoko: \<open>nat\<close> and \<open>int\<close>.
  \<^item> \<^verbatim>\<open>Float\<close> values (coordinates, price) are only stored and handed back, never computed
    with or compared, so their carrier is \<open>real\<close>.
  \<^item> \<^verbatim>\<open>Principal\<close> is an opaque identity with equality.
  \<^item> \<^verbatim>\<open>msg.caller\<close> and the value of \<^verbatim>\<open>Time.now()\<close> are arguments of each call.
  \<^item> \<^verbatim>\<open>Result.Result<Ride, Text>\<close> is \<open>string + Ride\<close>: \<open>Inl\<close> is \<^verbatim>\<open>#err\<close>, \<open>Inr\<close> is \<^verbatim>\<open>#ok\<close>.
\<close>

subsection \<open>Types\<close>

type_synonym RideId = nat

datatype Principal = Principal string

type_synonym UserId = Principal

record Location =
  latitude :: real
  longitude :: real

datatype RideStatus = pending | accepted | completed | cancelled

record Ride =
  id' :: RideId
  passengerId :: UserId
  driverId :: "UserId option"
  pickupLocation :: Location
  dropoffLocation :: Location
  status :: RideStatus
  price :: real
  createdAt :: int
  updatedAt :: int

type_synonym 'a Result = "string + 'a"

subsection \<open>The hash map\<close>

text \<open>
  \<^verbatim>\<open>HashMap.HashMap<RideId, Ride>\<close> of the Motoko base library, through the three methods the
  actor calls. The table is the list of its entries: \<^verbatim>\<open>get\<close> looks a key up, \<^verbatim>\<open>put\<close>
  replaces the entry of a key that is present and adds an entry otherwise, \<^verbatim>\<open>vals\<close>
  iterates over the values of all entries. The order of the iteration of the library's
  table is decided by its hash function; here it is the order of the list, and no
  property below depends on it.
\<close>

type_synonym ('k, 'v) HashMap = "('k \<times> 'v) list"

definition HashMap_get :: "('k, 'v) HashMap \<Rightarrow> 'k \<Rightarrow> 'v option" where
  "HashMap_get m k = map_of m k"

definition HashMap_put :: "('k, 'v) HashMap \<Rightarrow> 'k \<Rightarrow> 'v \<Rightarrow> ('k, 'v) HashMap" where
  "HashMap_put m k v = AList.update k v m"

definition HashMap_vals :: "('k, 'v) HashMap \<Rightarrow> 'v list" where
  "HashMap_vals m = map snd m"

text \<open>
  The loop shared by the three scanning queries:
  \<^verbatim>\<open>for (ride in rides.vals()) { if (p ride) { buf.add(ride) } }; buf.toArray()\<close>.
\<close>

fun scan :: "('a \<Rightarrow> bool) \<Rightarrow> 'a list \<Rightarrow> 'a list \<Rightarrow> 'a list" where
  "scan p buf [] = buf"
| "scan p buf (ride # rest) = scan p (if p ride then buf @ [ride] else buf) rest"

subsection \<open>The actor\<close>

record RideBackend =
  nextRideId :: nat
  rides :: "(RideId, Ride) HashMap"

definition init :: RideBackend where
  "init = \<lparr>nextRideId = 1, rides = []\<rparr>"

definition createRide ::
  "UserId \<Rightarrow> int \<Rightarrow> Location \<Rightarrow> Location \<Rightarrow> real \<Rightarrow> RideBackend \<Rightarrow> Ride Result \<times> RideBackend"
where
  "createRide caller now pickup dropoff p s =
     (let rideId = nextRideId s;
          s1 = s\<lparr>nextRideId := nextRideId s + 1\<rparr>;
          ride = \<lparr>id' = rideId, passengerId = caller, driverId = None,
                  pickupLocation = pickup, dropoffLocation = dropoff,
                  status = pending, price = p, createdAt = now, updatedAt = now\<rparr>
      in (Inr ride, s1\<lparr>rides := HashMap_put (rides s1) rideId ride\<rparr>))"

definition getRide :: "RideBackend \<Rightarrow> RideId \<Rightarrow> Ride option" where
  "getRide s rideId = HashMap_get (rides s) rideId"

definition getPassengerRides :: "RideBackend \<Rightarrow> UserId \<Rightarrow> Ride list" where
  "getPassengerRides s pid = scan (\<lambda>ride. passengerId ride = pid) [] (HashMap_vals (rides s))"

definition acceptRide :: "UserId \<Rightarrow> int \<Rightarrow> RideId \<Rightarrow> RideBackend \<Rightarrow> Ride Result \<times> RideBackend" where
  "acceptRide caller now rideId s =
     (case HashMap_get (rides s) rideId of
        Some ride \<Rightarrow>
          if status ride \<noteq> pending then (Inl ''Ride is not available for acceptance'', s)
          else
            let updatedRide = ride\<lparr>driverId := Some caller, status := accepted, updatedAt := now\<rparr>
            in (Inr updatedRide, s\<lparr>rides := HashMap_put (rides s) rideId updatedRide\<rparr>)
      | None \<Rightarrow> (Inl ''Ride not found'', s))"

definition completeRide :: "UserId \<Rightarrow> int \<Rightarrow> RideId \<Rightarrow> RideBackend \<Rightarrow> Ride Result \<times> RideBackend" where
  "completeRide caller now rideId s =
     (case HashMap_get (rides s) rideId of
        Some ride \<Rightarrow>
          if driverId ride \<noteq> Some caller
          then (Inl ''Only the assigned driver can complete the ride'', s)
          else
            let updatedRide = ride\<lparr>status := completed, updatedAt := now\<rparr>
            in (Inr updatedRide, s\<lparr>rides := HashMap_put (rides s) rideId updatedRide\<rparr>)
      | None \<Rightarrow> (Inl ''Ride not found'', s))"

definition getAvailableRides :: "RideBackend \<Rightarrow> Ride list" where
  "getAvailableRides s = scan (\<lambda>ride. status ride = pending) [] (HashMap_vals (rides s))"

definition getDriverRides :: "RideBackend \<Rightarrow> UserId \<Rightarrow> Ride list" where
  "getDriverRides s did =
     scan (\<lambda>ride. case driverId ride of Some i \<Rightarrow> i = did | None \<Rightarrow> False) []
       (HashMap_vals (rides s))"

subsection \<open>Messages\<close>

text \<open>
  The actor handles its messages one after the other. A message names the public function
  and its arguments, and carries the caller and the time the system reports while the
  message is handled.
\<close>

datatype call =
    CreateRide Location Location real
  | GetRide RideId
  | GetPassengerRides UserId
  | AcceptRide RideId
  | CompleteRide RideId
  | GetAvailableRides
  | GetDriverRides UserId

datatype message = Message (msg_caller: UserId) (msg_time: int) (msg_call: call)

datatype reply = Result "Ride Result" | Opt "Ride option" | Array "Ride list"

fun dispatch :: "RideBackend \<Rightarrow> message \<Rightarrow> reply \<times> RideBackend" where
  "dispatch s (Message c t (CreateRide pickup dropoff p)) =
     (let (r, s') = createRide c t pickup dropoff p s in (Result r, s'))"
| "dispatch s (Message c t (GetRide i)) = (Opt (getRide s i), s)"
| "dispatch s (Message c t (GetPassengerRides u)) = (Array (getPassengerRides s u), s)"
| "dispatch s (Message c t (AcceptRide i)) =
     (let (r, s') = acceptRide c t i s in (Result r, s'))"
| "dispatch s (Message c t (CompleteRide i)) =
     (let (r, s') = completeRide c t i s in (Result r, s'))"
| "dispatch s (Message c t GetAvailableRides) = (Array (getAvailableRides s), s)"
| "dispatch s (Message c t (GetDriverRides u)) = (Array (getDriverRides s u), s)"

definition step :: "RideBackend \<Rightarrow> message \<Rightarrow> RideBackend" where
  "step s m = snd (dispatch s m)"

fun exec :: "RideBackend \<Rightarrow> message list \<Rightarrow> RideBackend" where
  "exec s [] = s"
| "exec s (m # ms) = exec (step s m) ms"

fun replies :: "RideBackend \<Rightarrow> message list \<Rightarrow> reply list" where
  "replies s [] = []"
| "replies s (m # ms) = fst (dispatch s m) # replies (step s m) ms"

text \<open>The ids of the rides that the \<^verbatim>\<open>createRide\<close> calls of a run return, in the order of the calls.\<close>

fun created_id :: "message \<Rightarrow> reply \<Rightarrow> RideId list" where
  "created_id (Message c t (CreateRide pickup dropoff p)) (Result (Inr ride)) = [id' ride]"
| "created_id m r = []"

definition created_ids :: "RideBackend \<Rightarrow> message list \<Rightarrow> RideId list" where
  "created_ids s ms = concat (map2 created_id ms (replies s ms))"

fun is_create :: "message \<Rightarrow> bool" where
  "is_create (Message c t (CreateRide pickup dropoff p)) = True"
| "is_create m = False"

subsection \<open>Properties of the state\<close>

text \<open>The rides stored in the registry are the values of the table.\<close>

definition stored :: "RideBackend \<Rightarrow> Ride list" where
  "stored s = HashMap_vals (rides s)"

text \<open>
  A table has one entry for each of its keys; a ride is stored under its own id, and the
  counter is above every id in use.
\<close>

definition table_inv :: "RideBackend \<Rightarrow> bool" where
  "table_inv s =
     (distinct (map fst (rides s)) \<and>
      (\<forall>e \<in> set (rides s). id' (snd e) = fst e \<and> fst e < nextRideId s))"

text \<open>The moves of a status that the data model allows.\<close>

fun status_move :: "RideStatus \<Rightarrow> RideStatus \<Rightarrow> bool" where
  "status_move pending accepted = True"
| "status_move accepted completed = True"
| "status_move pending cancelled = True"
| "status_move a b = False"

definition driver_inv :: "RideBackend \<Rightarrow> bool" where
  "driver_inv s =
     (\<forall>ride \<in> set (stored s).
        (driverId ride \<noteq> None) = (status ride = accepted \<or> status ride = completed))"

definition time_inv :: "RideBackend \<Rightarrow> bool" where
  "time_inv s = (\<forall>ride \<in> set (stored s). createdAt ride \<le> updatedAt ride)"

subsection \<open>A run of three calls\<close>

text \<open>
  A passenger creates a ride at time 100, a driver accepts it at time 200 and completes it
  at time 300. The states in between are written out; \<open>ex_run\<close> below shows that the
  actor reaches them.
\<close>

definition alice :: UserId where "alice = Principal ''alice''"
definition bob :: UserId where "bob = Principal ''bob''"
definition carol :: UserId where "carol = Principal ''carol''"

definition ex_pickup :: Location where
  "ex_pickup = \<lparr>latitude = 6.5, longitude = 3.3\<rparr>"

definition ex_dropoff :: Location where
  "ex_dropoff = \<lparr>latitude = 5.0, longitude = 7.5\<rparr>"

definition ex_ride :: Ride where
  "ex_ride = \<lparr>id' = 1, passengerId = alice, driverId = None,
               pickupLocation = ex_pickup, dropoffLocation = ex_dropoff,
               status = pending, price = 12.5, createdAt = 100, updatedAt = 100\<rparr>"

definition ex_ride_accepted :: Ride where
  "ex_ride_accepted = ex_ride\<lparr>driverId := Some bob, status := accepted, updatedAt := 200\<rparr>"

definition ex_ride_completed :: Ride where
  "ex_ride_completed = ex_ride_accepted\<lparr>status := completed, updatedAt := 300\<rparr>"

definition ex_created :: RideBackend where
  "ex_created = \<lparr>nextRideId = 2, rides = [(1, ex_ride)]\<rparr>"

definition ex_accepted :: RideBackend where
  "ex_accepted = \<lparr>nextRideId = 2, rides = [(1, ex_ride_accepted)]\<rparr>"

definition ex_completed :: RideBackend where
  "ex_completed = \<lparr>nextRideId = 2, rides = [(1, ex_ride_completed)]\<rparr>"

definition ex_create :: message where
  "ex_create = Message alice 100 (CreateRide ex_pickup ex_dropoff 12.5)"

definition ex_accept :: message where
  "ex_accept = Message bob 200 (AcceptRide 1)"

definition ex_complete :: message where
  "ex_complete = Message bob 300 (CompleteRide 1)"

definition ex_create2 :: message where
  "ex_create2 = Message carol 150 (CreateRide ex_dropoff ex_pickup 8)"

text \<open>
  A second ride, created by another passenger at time 150, before or after the first one
  is accepted: both orders end in the state \<open>ex_two\<close>.
\<close>

definition ex_ride2 :: Ride where
  "ex_ride2 = \<lparr>id' = 2, passengerId = carol, driverId = None,
                pickupLocation = ex_dropoff, dropoffLocation = ex_pickup,
                status = pending, price = 8, createdAt = 150, updatedAt = 150\<rparr>"

definition ex_two :: RideBackend where
  "ex_two = \<lparr>nextRideId = 3, rides = [(1, ex_ride_accepted), (2, ex_ride2)]\<rparr>"

section \<open>Lemmas on the table\<close>

lemma get_put: "HashMap_get (HashMap_put m k v) j = (if j = k then Some v else HashMap_get m j)"
  by (simp add: HashMap_get_def HashMap_put_def update_conv')

lemma get_in_vals: "HashMap_get m k = Some v \<Longrightarrow> v \<in> set (HashMap_vals m)"
  unfolding HashMap_get_def HashMap_vals_def
  by (metis map_of_SomeD set_zip_rightD zip_map_fst_snd)

lemma keys_put: "fst ` set (HashMap_put m k v) = insert k (fst ` set m)"
  by (simp add: HashMap_put_def dom_update)

lemma distinct_put: "distinct (map fst m) \<Longrightarrow> distinct (map fst (HashMap_put m k v))"
  by (simp add: HashMap_put_def distinct_update)

lemma scan_filter: "scan p buf xs = buf @ filter p xs"
  by (induction xs arbitrary: buf) auto

lemma entries_put_subset: "set (HashMap_put m k v) \<subseteq> insert (k, v) (set m)"
  unfolding HashMap_put_def by (induction m) auto

lemma get_in_entries: "HashMap_get m k = Some v \<Longrightarrow> (k, v) \<in> set m"
  unfolding HashMap_get_def by (rule map_of_SomeD)

lemma get_of_entry: "distinct (map fst m) \<Longrightarrow> (k, v) \<in> set m \<Longrightarrow> HashMap_get m k = Some v"
  unfolding HashMap_get_def by simp

lemma get_None_iff: "HashMap_get m k = None \<longleftrightarrow> k \<notin> fst ` set m"
  unfolding HashMap_get_def by (simp add: map_of_eq_None_iff)

section \<open>Lemmas on calls and runs\<close>

lemma exec_snoc: "exec s (ms @ [m]) = step (exec s ms) m"
  by (induction ms arbitrary: s) auto

lemma exec_invariant:
  assumes "P s" and "\<And>s m. P s \<Longrightarrow> P (step s m)"
  shows "P (exec s ms)"
  using assms(1) by (induction ms arbitrary: s) (auto intro: assms(2))

lemma step_nextRideId: "nextRideId (step s m) = (if is_create m then nextRideId s + 1 else nextRideId s)"
proof (cases m)
  case (Message c t k)
  then show ?thesis
    by (cases k)
      (auto simp: step_def createRide_def acceptRide_def completeRide_def Let_def
        split: option.splits)
qed

text \<open>What a call can do to the table: each entry after the call was there before, or is
  the ride just created, or is an entry of before, accepted or completed by the call.\<close>

lemma put_entry: "e \<in> set (HashMap_put m k v) \<Longrightarrow> e \<in> set m \<or> e = (k, v)"
  using entries_put_subset [of m k v] by auto

lemma step_entries:
  assumes "e \<in> set (rides (step s m))"
  shows "e \<in> set (rides s)
    \<or> (\<exists>a b p. msg_call m = CreateRide a b p \<and>
          e = (nextRideId s,
               \<lparr>id' = nextRideId s, passengerId = msg_caller m, driverId = None,
                pickupLocation = a, dropoffLocation = b, status = pending, price = p,
                createdAt = msg_time m, updatedAt = msg_time m\<rparr>))
    \<or> (\<exists>ride. (fst e, ride) \<in> set (rides s) \<and> status ride = pending \<and>
          msg_call m = AcceptRide (fst e) \<and>
          snd e = ride\<lparr>driverId := Some (msg_caller m), status := accepted,
                       updatedAt := msg_time m\<rparr>)
    \<or> (\<exists>ride. (fst e, ride) \<in> set (rides s) \<and> driverId ride = Some (msg_caller m) \<and>
          msg_call m = CompleteRide (fst e) \<and>
          snd e = ride\<lparr>status := completed, updatedAt := msg_time m\<rparr>)"
proof (cases m)
  case (Message c t k)
  show ?thesis
  proof (cases k)
    case (CreateRide a b p)
    with assms Message show ?thesis
      by (auto simp: step_def createRide_def Let_def dest!: put_entry)
  next
    case (AcceptRide i)
    show ?thesis
    proof (cases "HashMap_get (rides s) i")
      case None
      with assms Message AcceptRide show ?thesis
        by (simp add: step_def acceptRide_def)
    next
      case (Some ride)
      show ?thesis
      proof (cases "status ride = pending")
        case False
        with assms Message AcceptRide Some show ?thesis
          by (simp add: step_def acceptRide_def)
      next
        case True
        let ?r = "ride\<lparr>driverId := Some c, status := accepted, updatedAt := t\<rparr>"
        from assms Message AcceptRide Some True
        have "e \<in> set (HashMap_put (rides s) i ?r)"
          by (simp add: step_def acceptRide_def Let_def)
        then have "e \<in> set (rides s) \<or> e = (i, ?r)" by (rule put_entry)
        moreover have "(i, ride) \<in> set (rides s)" using Some by (rule get_in_entries)
        ultimately show ?thesis using Message AcceptRide True by auto
      qed
    qed
  next
    case (CompleteRide i)
    show ?thesis
    proof (cases "HashMap_get (rides s) i")
      case None
      with assms Message CompleteRide show ?thesis
        by (simp add: step_def completeRide_def)
    next
      case (Some ride)
      show ?thesis
      proof (cases "driverId ride = Some c")
        case False
        with assms Message CompleteRide Some show ?thesis
          by (simp add: step_def completeRide_def)
      next
        case True
        let ?r = "ride\<lparr>status := completed, updatedAt := t\<rparr>"
        from assms Message CompleteRide Some True
        have "e \<in> set (HashMap_put (rides s) i ?r)"
          by (simp add: step_def completeRide_def Let_def)
        then have "e \<in> set (rides s) \<or> e = (i, ?r)" by (rule put_entry)
        moreover have "(i, ride) \<in> set (rides s)" using Some by (rule get_in_entries)
        ultimately show ?thesis using Message CompleteRide True by auto
      qed
    qed
  qed (use assms Message in \<open>auto simp: step_def\<close>)
qed

text \<open>No call removes a ride.\<close>

lemma step_keys: "fst ` set (rides s) \<subseteq> fst ` set (rides (step s m))"
proof (cases m)
  case (Message c t k)
  then show ?thesis
    by (cases k)
      (auto simp: step_def createRide_def acceptRide_def completeRide_def Let_def keys_put
        split: option.splits)
qed

lemma step_distinct: "distinct (map fst (rides s)) \<Longrightarrow> distinct (map fst (rides (step s m)))"
proof (cases m)
  case (Message c t k)
  then show "distinct (map fst (rides s)) \<Longrightarrow> ?thesis"
    by (cases k)
      (auto simp: step_def createRide_def acceptRide_def completeRide_def Let_def distinct_put
        split: option.splits)
qed


lemma is_create_iff: "is_create m \<longleftrightarrow> (\<exists>a b p. msg_call m = CreateRide a b p)"
proof (cases m)
  case (Message c t k)
  then show ?thesis by (cases k) auto
qed

lemma step_nextRideId_le: "nextRideId s \<le> nextRideId (step s m)"
  by (simp add: step_nextRideId)

lemma table_inv_step:
  assumes "table_inv s"
  shows "table_inv (step s m)"
proof -
  from assms have old: "id' (snd e) = fst e \<and> fst e < nextRideId s" if "e \<in> set (rides s)" for e
    using that by (simp add: table_inv_def)
  have "id' (snd e) = fst e \<and> fst e < nextRideId (step s m)"
    if "e \<in> set (rides (step s m))" for e
    using step_entries [OF that]
  proof (elim disjE exE conjE)
    assume "e \<in> set (rides s)"
    with old [of e] step_nextRideId_le [of s m] show ?thesis by simp
  next
    fix a b p
    assume "msg_call m = CreateRide a b p"
      and "e = (nextRideId s,
               \<lparr>id' = nextRideId s, passengerId = msg_caller m, driverId = None,
                pickupLocation = a, dropoffLocation = b, status = pending, price = p,
                createdAt = msg_time m, updatedAt = msg_time m\<rparr>)"
    then show ?thesis by (simp add: step_nextRideId is_create_iff)
  next
    fix ride
    assume "(fst e, ride) \<in> set (rides s)"
      and "snd e = ride\<lparr>driverId := Some (msg_caller m), status := accepted,
                       updatedAt := msg_time m\<rparr>"
    with old [of "(fst e, ride)"] step_nextRideId_le [of s m] show ?thesis by simp
  next
    fix ride
    assume "(fst e, ride) \<in> set (rides s)"
      and "snd e = ride\<lparr>status := completed, updatedAt := msg_time m\<rparr>"
    with old [of "(fst e, ride)"] step_nextRideId_le [of s m] show ?thesis by simp
  qed
  moreover from assms have "distinct (map fst (rides (step s m)))"
    by (simp add: table_inv_def step_distinct)
  ultimately show ?thesis by (simp add: table_inv_def)
qed

lemma stored_iff: "ride \<in> set (stored s) \<longleftrightarrow> (\<exists>k. (k, ride) \<in> set (rides s))"
  by (force simp: stored_def HashMap_vals_def)

text \<open>The same, for the rides without their keys.\<close>

lemma step_stored:
  assumes "ride' \<in> set (stored (step s m))"
  shows "ride' \<in> set (stored s)
    \<or> (\<exists>a b p. msg_call m = CreateRide a b p \<and>
          ride' = \<lparr>id' = nextRideId s, passengerId = msg_caller m, driverId = None,
                pickupLocation = a, dropoffLocation = b, status = pending, price = p,
                createdAt = msg_time m, updatedAt = msg_time m\<rparr>)
    \<or> (\<exists>ride. ride \<in> set (stored s) \<and> status ride = pending \<and>
          ride' = ride\<lparr>driverId := Some (msg_caller m), status := accepted,
                       updatedAt := msg_time m\<rparr>)
    \<or> (\<exists>ride. ride \<in> set (stored s) \<and> driverId ride = Some (msg_caller m) \<and>
          ride' = ride\<lparr>status := completed, updatedAt := msg_time m\<rparr>)"
proof -
  from assms obtain k where "(k, ride') \<in> set (rides (step s m))"
    by (auto simp: stored_iff)
  from step_entries [OF this] show ?thesis
    by (elim disjE exE conjE) (auto simp: stored_iff)
qed

lemma driver_inv_step:
  assumes "driver_inv s"
  shows "driver_inv (step s m)"
proof -
  have "(driverId ride' \<noteq> None) = (status ride' = accepted \<or> status ride' = completed)"
    if "ride' \<in> set (stored (step s m))" for ride'
    using step_stored [OF that] assms
    by (elim disjE exE conjE) (auto simp: driver_inv_def)
  then show ?thesis by (simp add: driver_inv_def)
qed

lemma no_cancelled_step:
  assumes "\<forall>ride \<in> set (stored s). status ride \<noteq> cancelled"
  shows "\<forall>ride \<in> set (stored (step s m)). status ride \<noteq> cancelled"
proof
  fix ride' assume "ride' \<in> set (stored (step s m))"
  from step_stored [OF this] assms show "status ride' \<noteq> cancelled"
    by (elim disjE exE conjE) auto
qed

lemma init_stored: "stored init = []"
  by (simp add: stored_def HashMap_vals_def init_def)

lemma table_inv_init: "table_inv init"
  by (simp add: table_inv_def init_def)

lemma table_inv_exec: "table_inv (exec init ms)"
  by (rule exec_invariant [where P = table_inv]) (auto intro: table_inv_init table_inv_step)

lemma driver_inv_exec: "driver_inv (exec init ms)"
proof (rule exec_invariant [where P = driver_inv])
  show "driver_inv init" by (simp add: driver_inv_def init_stored)
qed (rule driver_inv_step)

lemma no_cancelled_exec: "\<forall>ride \<in> set (stored (exec init ms)). status ride \<noteq> cancelled"
  by (rule exec_invariant [where P = "\<lambda>s. \<forall>ride \<in> set (stored s). status ride \<noteq> cancelled"])
    (simp_all add: init_stored no_cancelled_step)

lemma replies_length: "length (replies s ms) = length ms"
  by (induction ms arbitrary: s) auto

lemma created_ids_Cons:
  "created_ids s (m # ms) = created_id m (fst (dispatch s m)) @ created_ids (step s m) ms"
  by (simp add: created_ids_def)

lemma created_id_step:
  "created_id m (fst (dispatch s m)) = (if is_create m then [nextRideId s] else [])"
proof (cases m)
  case (Message c t k)
  then show ?thesis
    by (cases k) (auto simp: createRide_def Let_def split: prod.splits)
qed

lemma created_ids_from:
  "created_ids s ms = [nextRideId s ..< nextRideId s + length (filter is_create ms)]"
proof (induction ms arbitrary: s)
  case Nil
  show ?case by (simp add: created_ids_def)
next
  case (Cons m ms)
  let ?k = "length (filter is_create ms)"
  show ?case
  proof (cases "is_create m")
    case True
    have "created_ids s (m # ms) = nextRideId s # [Suc (nextRideId s) ..< Suc (nextRideId s) + ?k]"
      by (simp add: created_ids_Cons created_id_step Cons.IH step_nextRideId True del: upt_Suc)
    also have "\<dots> = [nextRideId s ..< nextRideId s + Suc ?k]"
      by (simp add: upt_conv_Cons del: upt_Suc)
    finally show ?thesis using True by (simp del: upt_Suc)
  next
    case False
    then show ?thesis
      by (simp add: created_ids_Cons created_id_step Cons.IH step_nextRideId)
  qed
qed

lemma nextRideId_exec:
  "nextRideId (exec s ms) = nextRideId s + length (filter is_create ms)"
  by (induction ms arbitrary: s) (simp_all add: step_nextRideId)

lemma getRide_stored: "getRide s i = Some ride \<Longrightarrow> ride \<in> set (stored s)"
  by (simp add: getRide_def stored_def get_in_vals)

lemma getRide_key: "getRide s i = Some ride \<Longrightarrow> i \<in> fst ` set (rides s)"
  unfolding getRide_def by (metis get_None_iff option.distinct(1))

text \<open>What a call can do to the ride stored under an id that is below the counter.\<close>

lemma step_getRide:
  assumes "getRide s i = Some ride" and "i \<noteq> nextRideId s"
  shows "getRide (step s m) i = Some ride
    \<or> (status ride = pending \<and> msg_call m = AcceptRide i \<and>
        getRide (step s m) i =
          Some (ride\<lparr>driverId := Some (msg_caller m), status := accepted,
                     updatedAt := msg_time m\<rparr>))
    \<or> (driverId ride = Some (msg_caller m) \<and> msg_call m = CompleteRide i \<and>
        getRide (step s m) i = Some (ride\<lparr>status := completed, updatedAt := msg_time m\<rparr>))"
proof (cases m)
  case (Message c t k)
  then show ?thesis using assms
    by (cases k)
      (auto simp: step_def getRide_def createRide_def acceptRide_def completeRide_def
        Let_def get_put split: option.splits)
qed

lemma step_getRide_new:
  assumes "getRide s i = None" and "getRide (step s m) i = Some ride'"
  shows "status ride' = pending \<and> driverId ride' = None \<and> id' ride' = i \<and> i = nextRideId s
    \<and> is_create m"
proof (cases m)
  case (Message c t k)
  then show ?thesis using assms
    by (cases k)
      (auto simp: step_def getRide_def createRide_def acceptRide_def completeRide_def
        Let_def get_put split: option.splits if_splits)
qed

lemma step_createRide: "step s (Message c t (CreateRide a b p)) = snd (createRide c t a b p s)"
  by (simp add: step_def split: prod.splits)

lemma step_acceptRide: "step s (Message c t (AcceptRide i)) = snd (acceptRide c t i s)"
  by (simp add: step_def split: prod.splits)

lemma step_completeRide: "step s (Message c t (CompleteRide i)) = snd (completeRide c t i s)"
  by (simp add: step_def split: prod.splits)

text \<open>The timestamps of the stored rides are times of messages handled so far.\<close>

lemma times_exec:
  assumes "sorted_wrt (<) (map msg_time ms)"
  shows "\<forall>ride \<in> set (stored (exec init ms)).
           createdAt ride \<le> updatedAt ride \<and> updatedAt ride \<in> msg_time ` set ms"
  using assms
proof (induction ms rule: rev_induct)
  case Nil
  show ?case by (simp add: init_stored)
next
  case (snoc m ms)
  from snoc.prems have sorted: "sorted_wrt (<) (map msg_time ms)"
    and later: "\<forall>x \<in> set ms. msg_time x < msg_time m"
    by (auto simp: sorted_wrt_append)
  note IH = snoc.IH [OF sorted]
  show ?case
  proof
    fix ride'
    assume "ride' \<in> set (stored (exec init (ms @ [m])))"
    then have "ride' \<in> set (stored (step (exec init ms) m))" by (simp add: exec_snoc)
    from step_stored [OF this]
    show "createdAt ride' \<le> updatedAt ride' \<and> updatedAt ride' \<in> msg_time ` set (ms @ [m])"
    proof (elim disjE exE conjE)
      assume "ride' \<in> set (stored (exec init ms))"
      with IH show ?thesis by auto
    next
      fix a b p
      assume "ride' = \<lparr>id' = nextRideId (exec init ms), passengerId = msg_caller m,
                driverId = None, pickupLocation = a, dropoffLocation = b, status = pending,
                price = p, createdAt = msg_time m, updatedAt = msg_time m\<rparr>"
      then show ?thesis by simp
    next
      fix ride
      assume "ride \<in> set (stored (exec init ms))"
        and "ride' = ride\<lparr>driverId := Some (msg_caller m), status := accepted,
                       updatedAt := msg_time m\<rparr>"
      with IH later show ?thesis by fastforce
    next
      fix ride
      assume "ride \<in> set (stored (exec init ms))"
        and "ride' = ride\<lparr>status := completed, updatedAt := msg_time m\<rparr>"
      with IH later show ?thesis by fastforce
    qed
  qed
qed

lemma mutation_reply:
  assumes "getRide s i = Some ride"
    and "msg_call m = AcceptRide i \<or> msg_call m = CompleteRide i"
    and "fst (dispatch s m) = Result (Inr ride')"
  shows "getRide (step s m) i = Some ride' \<and> updatedAt ride' = msg_time m"
proof (cases m)
  case (Message c t k)
  with assms show ?thesis
    by (auto simp: step_def getRide_def acceptRide_def completeRide_def Let_def get_put
        split: if_splits)
qed

lemma available_stored:
  "set (getAvailableRides s) = {ride \<in> set (stored s). status ride = pending}"
  by (simp add: getAvailableRides_def scan_filter stored_def)

lemma stored_getRide:
  assumes "table_inv s"
  shows "ride \<in> set (stored s) \<longleftrightarrow> getRide s (id' ride) = Some ride"
proof
  assume "ride \<in> set (stored s)"
  then obtain k where k: "(k, ride) \<in> set (rides s)" by (auto simp: stored_iff)
  with assms have "id' ride = k" by (auto simp: table_inv_def)
  moreover from assms k have "HashMap_get (rides s) k = Some ride"
    by (simp add: table_inv_def get_of_entry)
  ultimately show "getRide s (id' ride) = Some ride" by (simp add: getRide_def)
next
  assume "getRide s (id' ride) = Some ride"
  then show "ride \<in> set (stored s)" by (rule getRide_stored)
qed

lemma stored_distinct:
  assumes "table_inv s"
  shows "distinct (stored s)"
proof -
  from assms have "map fst (rides s) = map id' (stored s)"
    by (simp add: table_inv_def stored_def HashMap_vals_def)
  moreover from assms have "distinct (map fst (rides s))" by (simp add: table_inv_def)
  ultimately show ?thesis by (simp add: distinct_map)
qed

text \<open>
  The rides that the scan returns do not depend on the order in which the table iterates
  over its entries.
\<close>

lemma available_any_order:
  "set (rides s') = set (rides s) \<Longrightarrow> set (getAvailableRides s') = set (getAvailableRides s)"
  by (simp add: available_stored stored_def HashMap_vals_def)

section \<open>The run of three calls\<close>

lemma ex_run:
  "exec init [ex_create] = ex_created"
  "exec init [ex_create, ex_accept] = ex_accepted"
  "exec init [ex_create, ex_accept, ex_complete] = ex_completed"
  by (simp_all add: init_def ex_create_def ex_accept_def ex_complete_def step_def
      createRide_def acceptRide_def completeRide_def HashMap_get_def HashMap_put_def
      ex_created_def ex_accepted_def ex_completed_def ex_ride_def ex_ride_accepted_def
      ex_ride_completed_def Let_def)

lemma ex_run2:
  "exec init [ex_create, ex_create2, ex_accept] = ex_two"
  "exec init [ex_create, ex_accept, ex_create2] = ex_two"
  by (simp_all add: init_def ex_create_def ex_accept_def ex_create2_def step_def
      createRide_def acceptRide_def HashMap_get_def HashMap_put_def
      ex_two_def ex_ride_def ex_ride_accepted_def ex_ride2_def Let_def)

lemma ex_getRide:
  "getRide init 1 = None"
  "getRide ex_created 1 = Some ex_ride"
  "getRide ex_accepted 1 = Some ex_ride_accepted"
  "getRide ex_completed 1 = Some ex_ride_completed"
  by (simp_all add: getRide_def HashMap_get_def init_def ex_created_def ex_accepted_def
      ex_completed_def)

lemma ex_fields:
  "status ex_ride = pending" "driverId ex_ride = None"
  "status ex_ride_accepted = accepted" "driverId ex_ride_accepted = Some bob"
  "status ex_ride_completed = completed" "driverId ex_ride_completed = Some bob"
  by (simp_all add: ex_ride_def ex_ride_accepted_def ex_ride_completed_def)

lemma ex_distinct: "bob \<noteq> carol" "alice \<noteq> bob" "alice \<noteq> carol"
  by (simp_all add: alice_def bob_def carol_def)

section \<open>The operations, one call at a time\<close>

text \<open>
  C1. When the ride stored under \<open>i\<close> is pending, \<^verbatim>\<open>acceptRide\<close> by any caller succeeds. The
  ride it returns is the stored one with status accepted, the caller as driver and the
  current time as \<open>updatedAt\<close>; the six other fields are those of the stored ride. After
  the call that ride is the one stored under \<open>i\<close>, every other id holds what it held
  before, and the counter is unchanged.
\<close>

theorem acceptRide_pending:
  assumes "getRide s i = Some ride" and "status ride = pending"
  shows "\<exists>ride' s'. acceptRide c t i s = (Inr ride', s')
           \<and> status ride' = accepted \<and> driverId ride' = Some c \<and> updatedAt ride' = t
           \<and> id' ride' = id' ride \<and> passengerId ride' = passengerId ride
           \<and> pickupLocation ride' = pickupLocation ride
           \<and> dropoffLocation ride' = dropoffLocation ride
           \<and> price ride' = price ride \<and> createdAt ride' = createdAt ride
           \<and> getRide s' i = Some ride'
           \<and> (\<forall>j. j \<noteq> i \<longrightarrow> getRide s' j = getRide s j)
           \<and> nextRideId s' = nextRideId s"
  using assms by (simp add: acceptRide_def getRide_def get_put Let_def)

theorem acceptRide_pending_witness:
  "getRide ex_created 1 = Some ex_ride \<and> status ex_ride = pending \<and>
   (\<exists>ride' s'. acceptRide bob 200 1 ex_created = (Inr ride', s')
           \<and> status ride' = accepted \<and> driverId ride' = Some bob \<and> updatedAt ride' = 200
           \<and> id' ride' = id' ex_ride \<and> passengerId ride' = passengerId ex_ride
           \<and> pickupLocation ride' = pickupLocation ex_ride
           \<and> dropoffLocation ride' = dropoffLocation ex_ride
           \<and> price ride' = price ex_ride \<and> createdAt ride' = createdAt ex_ride
           \<and> getRide s' 1 = Some ride'
           \<and> getRide s' 2 = getRide ex_created 2
           \<and> nextRideId s' = nextRideId ex_created)"
proof -
  have h1: "getRide ex_created 1 = Some ex_ride" by (rule ex_getRide)
  have h2: "status ex_ride = pending" by (rule ex_fields)
  from acceptRide_pending [OF h1 h2, of bob 200] h1 h2 show ?thesis by fastforce
qed

text \<open>
  C2. When the caller is the driver recorded in the ride stored under \<open>i\<close>, \<^verbatim>\<open>completeRide\<close>
  succeeds whatever the status of the ride is: the code compares the driver only. The ride
  it returns is the stored one with status completed and the current time as \<open>updatedAt\<close>;
  the seven other fields are unchanged, and so are the rides under the other ids. In the
  witness the ride is completed already, and its driver completes it again.
\<close>

theorem completeRide_driver:
  assumes "getRide s i = Some ride" and "driverId ride = Some c"
  shows "\<exists>ride' s'. completeRide c t i s = (Inr ride', s')
           \<and> status ride' = completed \<and> updatedAt ride' = t
           \<and> id' ride' = id' ride \<and> passengerId ride' = passengerId ride
           \<and> driverId ride' = driverId ride
           \<and> pickupLocation ride' = pickupLocation ride
           \<and> dropoffLocation ride' = dropoffLocation ride
           \<and> price ride' = price ride \<and> createdAt ride' = createdAt ride
           \<and> getRide s' i = Some ride'
           \<and> (\<forall>j. j \<noteq> i \<longrightarrow> getRide s' j = getRide s j)
           \<and> nextRideId s' = nextRideId s"
  using assms by (simp add: completeRide_def getRide_def get_put Let_def)

theorem completeRide_driver_witness:
  "getRide ex_completed 1 = Some ex_ride_completed \<and> driverId ex_ride_completed = Some bob \<and>
   status ex_ride_completed = completed \<and>
   (\<exists>ride' s'. completeRide bob 400 1 ex_completed = (Inr ride', s')
           \<and> status ride' = completed \<and> updatedAt ride' = 400
           \<and> id' ride' = id' ex_ride_completed
           \<and> passengerId ride' = passengerId ex_ride_completed
           \<and> driverId ride' = driverId ex_ride_completed
           \<and> pickupLocation ride' = pickupLocation ex_ride_completed
           \<and> dropoffLocation ride' = dropoffLocation ex_ride_completed
           \<and> price ride' = price ex_ride_completed
           \<and> createdAt ride' = createdAt ex_ride_completed
           \<and> getRide s' 1 = Some ride'
           \<and> getRide s' 2 = getRide ex_completed 2
           \<and> nextRideId s' = nextRideId ex_completed)"
proof -
  have h1: "getRide ex_completed 1 = Some ex_ride_completed" by (rule ex_getRide)
  have h2: "driverId ex_ride_completed = Some bob" by (rule ex_fields)
  have h3: "status ex_ride_completed = completed" by (rule ex_fields)
  from completeRide_driver [OF h1 h2, of 400] h1 h2 h3 show ?thesis by fastforce
qed

text \<open>
  C3. The two error replies of \<^verbatim>\<open>acceptRide\<close>. The code has no error kinds, it replies
  \<^verbatim>\<open>#err\<close> with a text: \<^verbatim>\<open>"Ride not found"\<close> for an id that is not stored (the NotFound
  error), and \<^verbatim>\<open>"Ride is not available for acceptance"\<close> for a stored ride that is not
  pending (the InvalidState error). In both cases the state after the call is the state
  before it.
\<close>

theorem acceptRide_errors:
  "(getRide s i = None \<longrightarrow> acceptRide c t i s = (Inl ''Ride not found'', s)) \<and>
   (\<forall>ride. getRide s i = Some ride \<and> status ride \<noteq> pending \<longrightarrow>
      acceptRide c t i s = (Inl ''Ride is not available for acceptance'', s))"
  by (simp add: acceptRide_def getRide_def)

theorem acceptRide_errors_witness:
  "getRide init 1 = None \<and> acceptRide bob 200 1 init = (Inl ''Ride not found'', init) \<and>
   getRide ex_accepted 1 = Some ex_ride_accepted \<and> status ex_ride_accepted \<noteq> pending \<and>
   acceptRide carol 250 1 ex_accepted =
     (Inl ''Ride is not available for acceptance'', ex_accepted)"
proof -
  have h1: "getRide init 1 = None" by (rule ex_getRide)
  have h2: "getRide ex_accepted 1 = Some ex_ride_accepted" by (rule ex_getRide)
  have h3: "status ex_ride_accepted \<noteq> pending" by (simp add: ex_fields)
  from acceptRide_errors [of init 1 bob 200] h1
  have a: "acceptRide bob 200 1 init = (Inl ''Ride not found'', init)" by blast
  from acceptRide_errors [of ex_accepted 1 carol 250] h2 h3
  have b: "acceptRide carol 250 1 ex_accepted =
     (Inl ''Ride is not available for acceptance'', ex_accepted)" by blast
  from h1 a h2 h3 b show ?thesis by blast
qed

text \<open>
  C4. The two error replies of \<^verbatim>\<open>completeRide\<close>: \<^verbatim>\<open>#err("Ride not found")\<close> for an id that
  is not stored (the NotFound error), and
  \<^verbatim>\<open>#err("Only the assigned driver can complete the ride")\<close> (the Unauthorized error) when
  the driver field of the stored ride is not the caller, which covers every caller when
  the field is null. In both cases the state after the call is the state before it.
\<close>

theorem completeRide_errors:
  "(getRide s i = None \<longrightarrow> completeRide c t i s = (Inl ''Ride not found'', s)) \<and>
   (\<forall>ride. getRide s i = Some ride \<and> driverId ride \<noteq> Some c \<longrightarrow>
      completeRide c t i s = (Inl ''Only the assigned driver can complete the ride'', s)) \<and>
   (\<forall>ride. getRide s i = Some ride \<and> driverId ride = None \<longrightarrow>
      completeRide c t i s = (Inl ''Only the assigned driver can complete the ride'', s))"
  by (simp add: completeRide_def getRide_def)

theorem completeRide_errors_witness:
  "getRide init 1 = None \<and> completeRide bob 300 1 init = (Inl ''Ride not found'', init) \<and>
   getRide ex_accepted 1 = Some ex_ride_accepted \<and> driverId ex_ride_accepted \<noteq> Some carol \<and>
   completeRide carol 300 1 ex_accepted =
     (Inl ''Only the assigned driver can complete the ride'', ex_accepted) \<and>
   getRide ex_created 1 = Some ex_ride \<and> driverId ex_ride = None \<and>
   completeRide alice 300 1 ex_created =
     (Inl ''Only the assigned driver can complete the ride'', ex_created)"
proof -
  have h1: "getRide init 1 = None" by (rule ex_getRide)
  have h2: "getRide ex_accepted 1 = Some ex_ride_accepted" by (rule ex_getRide)
  have h3: "driverId ex_ride_accepted \<noteq> Some carol" by (simp add: ex_fields ex_distinct)
  have h4: "getRide ex_created 1 = Some ex_ride" by (rule ex_getRide)
  have h5: "driverId ex_ride = None" by (rule ex_fields)
  from completeRide_errors [of init 1 bob 300] h1
  have a: "completeRide bob 300 1 init = (Inl ''Ride not found'', init)" by blast
  from completeRide_errors [of ex_accepted 1 carol 300] h2 h3
  have b: "completeRide carol 300 1 ex_accepted =
     (Inl ''Only the assigned driver can complete the ride'', ex_accepted)" by blast
  from completeRide_errors [of ex_created 1 alice 300] h4 h5
  have c: "completeRide alice 300 1 ex_created =
     (Inl ''Only the assigned driver can complete the ride'', ex_created)" by blast
  from h1 a h2 h3 b h4 h5 c show ?thesis by blast
qed

lemma fresh_exec: "getRide (exec init ms) (nextRideId (exec init ms)) = None"
proof -
  have "table_inv (exec init ms)" by (rule table_inv_exec)
  then have "nextRideId (exec init ms) \<notin> fst ` set (rides (exec init ms))"
    by (auto simp: table_inv_def)
  then show ?thesis by (simp add: getRide_def get_None_iff)
qed

text \<open>
  C8. \<^verbatim>\<open>createRide\<close> has no error path: in every state and for all arguments it replies
  \<^verbatim>\<open>#ok\<close> with a ride whose id is the value of the counter, whose passenger is the caller,
  with no driver, status pending, the given locations and price and both timestamps at
  the current time. The counter is one higher afterwards, the ride is stored under its
  id, and the other ids hold what they held. In a state the actor reaches, no ride was
  stored under that id before. The last part is the round trip of the specification:
  after a ride is created with pickup (6.5, 3.3), dropoff (5.0, 7.5) and price 12.5,
  \<^verbatim>\<open>getRide\<close> of the returned id gives a ride of the caller with no driver, status pending
  and price 12.5.
\<close>

theorem createRide_ok:
  "(\<exists>ride s'. createRide c t a b p s = (Inr ride, s')
      \<and> id' ride = nextRideId s \<and> passengerId ride = c \<and> driverId ride = None
      \<and> pickupLocation ride = a \<and> dropoffLocation ride = b \<and> status ride = pending
      \<and> price ride = p \<and> createdAt ride = t \<and> updatedAt ride = t
      \<and> nextRideId s' = nextRideId s + 1
      \<and> getRide s' (id' ride) = Some ride
      \<and> (\<forall>j. j \<noteq> id' ride \<longrightarrow> getRide s' j = getRide s j))
   \<and> getRide (exec init ms) (nextRideId (exec init ms)) = None
   \<and> (\<exists>ride s'. createRide c t \<lparr>latitude = 6.5, longitude = 3.3\<rparr>
                    \<lparr>latitude = 5.0, longitude = 7.5\<rparr> 12.5 s = (Inr ride, s')
        \<and> (\<exists>got. getRide s' (id' ride) = Some got \<and> passengerId got = c
              \<and> driverId got = None \<and> status got = pending \<and> price got = 12.5))"
  by (simp add: createRide_def getRide_def get_put Let_def fresh_exec [unfolded getRide_def])

theorem createRide_ok_witness:
  "(\<exists>ride s'. createRide alice 100 ex_pickup ex_dropoff 12.5 ex_completed = (Inr ride, s')
      \<and> id' ride = 2 \<and> passengerId ride = alice \<and> driverId ride = None
      \<and> pickupLocation ride = ex_pickup \<and> dropoffLocation ride = ex_dropoff
      \<and> status ride = pending
      \<and> price ride = 12.5 \<and> createdAt ride = 100 \<and> updatedAt ride = 100
      \<and> nextRideId s' = 3
      \<and> getRide s' 2 = Some ride
      \<and> getRide s' 1 = Some ex_ride_completed)
   \<and> getRide ex_completed 2 = None"
proof -
  have n: "nextRideId ex_completed = 2" by (simp add: ex_completed_def)
  have g: "getRide ex_completed 1 = Some ex_ride_completed" by (rule ex_getRide)
  from createRide_ok [of alice 100 ex_pickup ex_dropoff "12.5" ex_completed
      "[ex_create, ex_accept, ex_complete]" ]
  show ?thesis unfolding ex_run n using g by (auto simp: )
qed

section \<open>Runs of calls\<close>

text \<open>
  C7. In a run of calls from the initial state, whatever other calls come in between,
  the ids that the \<^verbatim>\<open>createRide\<close> calls return are 1, 2, 3, ... in the order of the calls:
  one id for each \<^verbatim>\<open>createRide\<close>, strictly increasing, hence pairwise distinct and never
  used twice. The counter starts at 1, each \<^verbatim>\<open>createRide\<close> adds one to it and no other call
  changes it, so it never decreases. From any state, the ids returned are the successive
  values of the counter.
\<close>

theorem createRide_ids:
  "created_ids init ms = [1 ..< 1 + length (filter is_create ms)]
   \<and> sorted_wrt (<) (created_ids init ms)
   \<and> distinct (created_ids init ms)
   \<and> length (created_ids init ms) = length (filter is_create ms)
   \<and> nextRideId init = 1
   \<and> nextRideId (exec init ms) = 1 + length (filter is_create ms)
   \<and> nextRideId (step s m) = (if is_create m then nextRideId s + 1 else nextRideId s)
   \<and> nextRideId s \<le> nextRideId (step s m)
   \<and> created_ids s ms' = [nextRideId s ..< nextRideId s + length (filter is_create ms')]"
proof -
  have n: "nextRideId init = 1" by (simp add: init_def)
  have c: "created_ids init ms = [1 ..< 1 + length (filter is_create ms)]"
    using created_ids_from [of init ms] unfolding n .
  have e: "nextRideId (exec init ms) = 1 + length (filter is_create ms)"
    using nextRideId_exec [of init ms] unfolding n .
  have s: "sorted_wrt (<) (created_ids init ms)" by (simp only: c sorted_wrt_upt)
  have d: "distinct (created_ids init ms)" by (simp only: c distinct_upt)
  have l: "length (created_ids init ms) = length (filter is_create ms)"
    by (simp only: c length_upt)
  from c s d l n e step_nextRideId [of s m] step_nextRideId_le [of s m] created_ids_from [of s ms']
  show ?thesis by blast
qed

theorem createRide_ids_witness:
  "created_ids init [ex_create, ex_accept, ex_create2, ex_complete, ex_create] = [1, 2, 3]
   \<and> replies init [ex_create, ex_create2] =
       [Result (Inr ex_ride),
        Result (Inr ex_ride2)]
   \<and> nextRideId (exec init [ex_create, ex_accept, ex_create2, ex_complete, ex_create]) = 4
   \<and> nextRideId (step ex_created ex_create2) = 3
   \<and> nextRideId (step ex_created ex_accept) = 2"
proof -
  have f: "filter is_create [ex_create, ex_accept, ex_create2, ex_complete, ex_create]
    = [ex_create, ex_create2, ex_create]"
    by (simp add: ex_create_def ex_accept_def ex_create2_def ex_complete_def)
  have u: "[1 ..< 4] = [1, 2, 3::nat]" by (simp add: upt_conv_Cons)
  have r: "replies init [ex_create, ex_create2] =
       [Result (Inr ex_ride),
        Result (Inr ex_ride2)]"
    by (simp add: ex_create_def ex_create2_def init_def createRide_def step_def Let_def
        ex_ride_def ex_ride2_def HashMap_put_def)
  have n: "nextRideId ex_created = 2" by (simp add: ex_created_def)
  have i: "is_create ex_create2" "\<not> is_create ex_accept"
    by (simp_all add: ex_create2_def ex_accept_def)
  have k: "1 + length (filter is_create [ex_create, ex_accept, ex_create2, ex_complete, ex_create])
    = 4" by (simp only: f) simp
  note a = createRide_ids [of "[ex_create, ex_accept, ex_create2, ex_complete, ex_create]"
      ex_created ex_create2 "[]", unfolded k u]
  note b = createRide_ids [of "[]" ex_created ex_accept "[]"]
  from a have a1: "created_ids init [ex_create, ex_accept, ex_create2, ex_complete, ex_create]
    = [1, 2, 3]" by blast
  from a have a2: "nextRideId (exec init [ex_create, ex_accept, ex_create2, ex_complete, ex_create])
    = 4" by blast
  from a have a3: "nextRideId (step ex_created ex_create2) = 3" by (simp add: i n)
  from b have b1: "nextRideId (step ex_created ex_accept) = 2" by (simp add: i n)
  from a1 r a2 a3 b1 show ?thesis by blast
qed

text \<open>
  C5. Take any state the actor reaches from the initial state and any next call. A ride
  stored before the call is stored under the same id after it, and its status is either
  the same or has moved from pending to accepted, from accepted to completed or from
  pending to cancelled (\<open>status_move\<close>); a completed ride that its driver completes again
  keeps its status. A ride that is stored only after the call is pending. No call writes
  the status cancelled, and no state the actor reaches holds a cancelled ride.
\<close>

theorem ride_status_transitions:
  "(\<forall>i ride. getRide (exec init ms) i = Some ride \<longrightarrow>
      (\<exists>ride'. getRide (step (exec init ms) m) i = Some ride' \<and>
         (status ride' = status ride \<or> status_move (status ride) (status ride'))))
   \<and> (\<forall>i ride'. getRide (exec init ms) i = None \<and>
         getRide (step (exec init ms) m) i = Some ride' \<longrightarrow> status ride' = pending)
   \<and> (\<forall>ride \<in> set (stored (exec init ms)). status ride \<noteq> cancelled)
   \<and> (\<forall>i ride. getRide (exec init ms) i = Some ride \<longrightarrow> status ride \<noteq> cancelled)"
proof (intro conjI allI impI)
  fix i ride
  assume g: "getRide (exec init ms) i = Some ride"
  let ?s = "exec init ms"
  from g have "i \<in> fst ` set (rides ?s)" by (rule getRide_key)
  with table_inv_exec [of ms] have ne: "i \<noteq> nextRideId ?s"
    by (auto simp: table_inv_def)
  from g have st: "ride \<in> set (stored ?s)" by (rule getRide_stored)
  with driver_inv_exec [of ms]
  have dr: "(driverId ride \<noteq> None) = (status ride = accepted \<or> status ride = completed)"
    by (simp add: driver_inv_def)
  from step_getRide [OF g ne, of m]
  show "\<exists>ride'. getRide (step ?s m) i = Some ride' \<and>
         (status ride' = status ride \<or> status_move (status ride) (status ride'))"
  proof (elim disjE conjE)
    assume "getRide (step ?s m) i = Some ride"
    then show ?thesis by simp
  next
    assume "status ride = pending"
      and "getRide (step ?s m) i =
          Some (ride\<lparr>driverId := Some (msg_caller m), status := accepted,
                     updatedAt := msg_time m\<rparr>)"
    then show ?thesis by simp
  next
    assume "driverId ride = Some (msg_caller m)"
      and "getRide (step ?s m) i = Some (ride\<lparr>status := completed, updatedAt := msg_time m\<rparr>)"
    with dr show ?thesis by auto
  qed
  from st no_cancelled_exec [of ms] show "status ride \<noteq> cancelled" by simp
next
  fix i ride'
  assume "getRide (exec init ms) i = None \<and> getRide (step (exec init ms) m) i = Some ride'"
  then show "status ride' = pending" using step_getRide_new by blast
next
  show "\<forall>ride \<in> set (stored (exec init ms)). status ride \<noteq> cancelled"
    by (rule no_cancelled_exec)
qed

theorem ride_status_transitions_witness:
  "getRide (exec init [ex_create]) 1 = Some ex_ride
   \<and> getRide (step (exec init [ex_create]) ex_accept) 1 = Some ex_ride_accepted
   \<and> status_move (status ex_ride) (status ex_ride_accepted)
   \<and> getRide (exec init [ex_create, ex_accept]) 1 = Some ex_ride_accepted
   \<and> getRide (step (exec init [ex_create, ex_accept]) ex_complete) 1 = Some ex_ride_completed
   \<and> status_move (status ex_ride_accepted) (status ex_ride_completed)
   \<and> getRide (exec init []) 1 = None
   \<and> getRide (step (exec init []) ex_create) 1 = Some ex_ride
   \<and> status ex_ride = pending
   \<and> ex_ride_completed \<in> set (stored (exec init [ex_create, ex_accept, ex_complete]))
   \<and> status ex_ride_completed \<noteq> cancelled"
proof -
  have e0: "exec init [] = init" by simp
  have s0: "step init ex_create = ex_created"
    using ex_run(1) by simp
  have s1: "step ex_created ex_accept = ex_accepted"
    using ex_run(1,2) by simp
  have s2: "step ex_accepted ex_complete = ex_completed"
    using ex_run(2,3) by simp
  have m: "ex_ride_completed \<in> set (stored ex_completed)"
    by (simp add: stored_def HashMap_vals_def ex_completed_def)
  have ne: "status ex_ride_accepted \<noteq> status ex_ride"
    "status ex_ride_completed \<noteq> status ex_ride_accepted"
    by (simp_all add: ex_fields)
  note t1 = ride_status_transitions [of "[ex_create]" ex_accept, unfolded ex_run s1,
      THEN conjunct1, rule_format, OF ex_getRide(2)]
  have a: "status_move (status ex_ride) (status ex_ride_accepted)"
    using t1 ex_getRide(3) ne by auto
  note t2 = ride_status_transitions [of "[ex_create, ex_accept]" ex_complete, unfolded ex_run s2,
      THEN conjunct1, rule_format, OF ex_getRide(3)]
  have b: "status_move (status ex_ride_accepted) (status ex_ride_completed)"
    using t2 ex_getRide(4) ne by auto
  from ride_status_transitions [of "[]" ex_create]
  have c: "status ex_ride = pending"
    unfolding e0 s0 using ex_getRide by blast
  from ride_status_transitions [of "[ex_create, ex_accept, ex_complete]" ex_create]
  have d: "status ex_ride_completed \<noteq> cancelled"
    unfolding ex_run using m by blast
  from a b c d m ex_getRide show ?thesis
    unfolding e0 ex_run s0 s1 s2 by simp
qed

text \<open>
  C6. \<open>driver_inv\<close>: every stored ride has a driver exactly when its status is accepted or
  completed. It holds in the initial state, where nothing is stored; each of
  \<^verbatim>\<open>createRide\<close>, \<^verbatim>\<open>acceptRide\<close> and \<^verbatim>\<open>completeRide\<close> keeps it, from any state in which it
  holds and whatever the reply is; so it holds in every state the actor reaches, for the
  ride that \<^verbatim>\<open>getRide\<close> returns for any id.
\<close>

theorem driver_iff_status:
  "driver_inv init
   \<and> (driver_inv s \<longrightarrow> driver_inv (snd (createRide c t a b p s)))
   \<and> (driver_inv s \<longrightarrow> driver_inv (snd (acceptRide c t i s)))
   \<and> (driver_inv s \<longrightarrow> driver_inv (snd (completeRide c t i s)))
   \<and> driver_inv (exec init ms)
   \<and> (\<forall>j ride. getRide (exec init ms) j = Some ride \<longrightarrow>
        (driverId ride \<noteq> None) = (status ride = accepted \<or> status ride = completed))"
proof (intro conjI impI allI)
  show "driver_inv init" by (simp add: driver_inv_def init_stored)
  show "driver_inv (exec init ms)" by (rule driver_inv_exec)
next
  assume "driver_inv s"
  then show "driver_inv (snd (createRide c t a b p s))"
    unfolding step_createRide [symmetric] by (rule driver_inv_step)
next
  assume "driver_inv s"
  then show "driver_inv (snd (acceptRide c t i s))"
    unfolding step_acceptRide [symmetric] by (rule driver_inv_step)
next
  assume "driver_inv s"
  then show "driver_inv (snd (completeRide c t i s))"
    unfolding step_completeRide [symmetric] by (rule driver_inv_step)
next
  fix j ride
  assume "getRide (exec init ms) j = Some ride"
  then have "ride \<in> set (stored (exec init ms))" by (rule getRide_stored)
  with driver_inv_exec [of ms]
  show "(driverId ride \<noteq> None) = (status ride = accepted \<or> status ride = completed)"
    by (simp add: driver_inv_def)
qed

theorem driver_iff_status_witness:
  "driver_inv ex_created
   \<and> driver_inv (snd (createRide carol 150 ex_dropoff ex_pickup 8 ex_created))
   \<and> snd (acceptRide bob 200 1 ex_created) = ex_accepted
   \<and> driver_inv ex_accepted
   \<and> snd (completeRide bob 300 1 ex_accepted) = ex_completed
   \<and> driver_inv ex_completed
   \<and> getRide (exec init [ex_create]) 1 = Some ex_ride
   \<and> driverId ex_ride = None \<and> status ex_ride = pending
   \<and> getRide (exec init [ex_create, ex_accept]) 1 = Some ex_ride_accepted
   \<and> driverId ex_ride_accepted = Some bob \<and> status ex_ride_accepted = accepted
   \<and> getRide (exec init [ex_create, ex_accept, ex_complete]) 1 = Some ex_ride_completed
   \<and> driverId ex_ride_completed = Some bob \<and> status ex_ride_completed = completed"
proof -
  have h1: "driver_inv ex_created"
    by (simp add: driver_inv_def stored_def HashMap_vals_def ex_created_def ex_fields)
  have s1: "snd (acceptRide bob 200 1 ex_created) = ex_accepted"
    using ex_run(1,2) by (simp add: ex_accept_def step_acceptRide)
  have s2: "snd (completeRide bob 300 1 ex_accepted) = ex_completed"
    using ex_run(2,3) by (simp add: ex_accept_def ex_complete_def step_acceptRide step_completeRide)
  note t = driver_iff_status [of ex_created carol 150 ex_dropoff ex_pickup 8 1 "[]"]
  from t h1 have a: "driver_inv (snd (createRide carol 150 ex_dropoff ex_pickup 8 ex_created))"
    by blast
  from driver_iff_status [of ex_created bob 200 ex_dropoff ex_pickup 8 1 "[]"] h1
  have b: "driver_inv ex_accepted" unfolding s1 by blast
  from driver_iff_status [of ex_accepted bob 300 ex_dropoff ex_pickup 8 1 "[]"] b
  have c: "driver_inv ex_completed" unfolding s2 by blast
  from h1 a s1 b s2 c ex_getRide ex_fields show ?thesis
    unfolding ex_run by simp
qed

text \<open>
  C9. The clock is read once while a message is handled, and the hypothesis is that the
  times of the messages of the run strictly increase. Then in the state after the run
  every stored ride has \<open>createdAt \<le> updatedAt\<close> (\<open>time_inv\<close>). And when the next message
  is an \<^verbatim>\<open>acceptRide\<close> or a \<^verbatim>\<open>completeRide\<close> for the id of a stored ride and the reply is
  \<^verbatim>\<open>#ok\<close>, the ride of the reply is the one stored under that id afterwards and its
  \<open>updatedAt\<close> is strictly greater than that of the ride stored before.
\<close>

theorem updatedAt_increases:
  "(sorted_wrt (<) (map msg_time ms) \<longrightarrow> time_inv (exec init ms))
   \<and> (sorted_wrt (<) (map msg_time (ms @ [m])) \<longrightarrow>
        (\<forall>i ride ride'.
           getRide (exec init ms) i = Some ride
           \<and> (msg_call m = AcceptRide i \<or> msg_call m = CompleteRide i)
           \<and> fst (dispatch (exec init ms) m) = Result (Inr ride') \<longrightarrow>
           getRide (exec init (ms @ [m])) i = Some ride'
           \<and> updatedAt ride < updatedAt ride'))"
proof (intro conjI impI allI)
  assume "sorted_wrt (<) (map msg_time ms)"
  from times_exec [OF this] show "time_inv (exec init ms)" by (simp add: time_inv_def)
next
  fix i ride ride'
  assume sorted: "sorted_wrt (<) (map msg_time (ms @ [m]))"
  assume h: "getRide (exec init ms) i = Some ride
           \<and> (msg_call m = AcceptRide i \<or> msg_call m = CompleteRide i)
           \<and> fst (dispatch (exec init ms) m) = Result (Inr ride')"
  from sorted have s: "sorted_wrt (<) (map msg_time ms)"
    and later: "\<forall>x \<in> set ms. msg_time x < msg_time m"
    by (auto simp: sorted_wrt_append)
  from h have "ride \<in> set (stored (exec init ms))" by (blast intro: getRide_stored)
  with times_exec [OF s] have "updatedAt ride \<in> msg_time ` set ms" by simp
  with later have lt: "updatedAt ride < msg_time m" by auto
  from h mutation_reply [of "exec init ms" i ride m ride']
  have "getRide (step (exec init ms) m) i = Some ride'" and "updatedAt ride' = msg_time m"
    by simp_all
  with lt show "getRide (exec init (ms @ [m])) i = Some ride'" and "updatedAt ride < updatedAt ride'"
    by (simp_all add: exec_snoc)
qed

theorem updatedAt_increases_witness:
  "sorted_wrt (<) (map msg_time [ex_create, ex_accept, ex_complete])
   \<and> time_inv (exec init [ex_create, ex_accept, ex_complete])
   \<and> sorted_wrt (<) (map msg_time ([ex_create] @ [ex_accept]))
   \<and> getRide (exec init [ex_create]) 1 = Some ex_ride
   \<and> msg_call ex_accept = AcceptRide 1
   \<and> fst (dispatch (exec init [ex_create]) ex_accept) = Result (Inr ex_ride_accepted)
   \<and> getRide (exec init ([ex_create] @ [ex_accept])) 1 = Some ex_ride_accepted
   \<and> updatedAt ex_ride < updatedAt ex_ride_accepted
   \<and> sorted_wrt (<) (map msg_time ([ex_create, ex_accept] @ [ex_complete]))
   \<and> getRide (exec init [ex_create, ex_accept]) 1 = Some ex_ride_accepted
   \<and> msg_call ex_complete = CompleteRide 1
   \<and> fst (dispatch (exec init [ex_create, ex_accept]) ex_complete)
       = Result (Inr ex_ride_completed)
   \<and> getRide (exec init ([ex_create, ex_accept] @ [ex_complete])) 1 = Some ex_ride_completed
   \<and> updatedAt ex_ride_accepted < updatedAt ex_ride_completed"
proof -
  have so: "sorted_wrt (<) (map msg_time [ex_create, ex_accept, ex_complete])"
    "sorted_wrt (<) (map msg_time ([ex_create] @ [ex_accept]))"
    "sorted_wrt (<) (map msg_time ([ex_create, ex_accept] @ [ex_complete]))"
    by (simp_all add: ex_create_def ex_accept_def ex_complete_def)
  have g1: "getRide (exec init [ex_create]) 1 = Some ex_ride"
    and g2: "getRide (exec init [ex_create, ex_accept]) 1 = Some ex_ride_accepted"
    unfolding ex_run by (rule ex_getRide)+
  have c1: "msg_call ex_accept = AcceptRide 1" by (simp add: ex_accept_def)
  have c2: "msg_call ex_complete = CompleteRide 1" by (simp add: ex_complete_def)
  have d1: "fst (dispatch (exec init [ex_create]) ex_accept) = Result (Inr ex_ride_accepted)"
    unfolding ex_run
    by (simp add: ex_accept_def ex_created_def acceptRide_def HashMap_get_def Let_def
        ex_ride_def ex_ride_accepted_def)
  have d2: "fst (dispatch (exec init [ex_create, ex_accept]) ex_complete)
       = Result (Inr ex_ride_completed)"
    unfolding ex_run
    by (simp add: ex_complete_def ex_accepted_def completeRide_def HashMap_get_def Let_def
        ex_ride_def ex_ride_accepted_def ex_ride_completed_def)
  from updatedAt_increases [of "[ex_create, ex_accept, ex_complete]" ex_create] so(1)
  have a: "time_inv (exec init [ex_create, ex_accept, ex_complete])" by blast
  from updatedAt_increases [of "[ex_create]" ex_accept] so(2) g1 c1 d1
  have b: "getRide (exec init ([ex_create] @ [ex_accept])) 1 = Some ex_ride_accepted
     \<and> updatedAt ex_ride < updatedAt ex_ride_accepted" by blast
  from updatedAt_increases [of "[ex_create, ex_accept]" ex_complete] so(3) g2 c2 d2
  have c: "getRide (exec init ([ex_create, ex_accept] @ [ex_complete])) 1 = Some ex_ride_completed
     \<and> updatedAt ex_ride_accepted < updatedAt ex_ride_completed" by blast
  from so a g1 c1 d1 b g2 c2 d2 c show ?thesis by blast
qed

text \<open>
  C10. In every state the actor reaches, the rides that \<^verbatim>\<open>getAvailableRides\<close> returns are
  exactly the stored rides with status pending: each ride returned is pending and is the
  ride stored under its id, each stored pending ride is returned, and none is returned
  twice. The result is a function of what is stored: two runs after which \<^verbatim>\<open>getRide\<close>
  agrees on every id give the same set, in whatever order the rides were created and
  accepted.
\<close>

theorem available_exact:
  "set (getAvailableRides (exec init ms))
     = {ride. \<exists>i. getRide (exec init ms) i = Some ride \<and> status ride = pending}
   \<and> (\<forall>ride \<in> set (getAvailableRides (exec init ms)).
         status ride = pending \<and> getRide (exec init ms) (id' ride) = Some ride)
   \<and> (\<forall>i ride. getRide (exec init ms) i = Some ride \<and> status ride = pending \<longrightarrow>
         ride \<in> set (getAvailableRides (exec init ms)))
   \<and> distinct (getAvailableRides (exec init ms))
   \<and> (getRide (exec init ms') = getRide (exec init ms) \<longrightarrow>
         set (getAvailableRides (exec init ms')) = set (getAvailableRides (exec init ms)))"
proof -
  have mem: "ride \<in> set (getAvailableRides (exec init ns)) \<longleftrightarrow>
      getRide (exec init ns) (id' ride) = Some ride \<and> status ride = pending" for ride ns
    using stored_getRide [OF table_inv_exec, of ride ns] by (auto simp: available_stored)
  have key: "id' ride = i" if "getRide (exec init ns) i = Some ride" for ride i ns
  proof -
    from that have "(i, ride) \<in> set (rides (exec init ns))"
      by (simp add: getRide_def get_in_entries)
    with table_inv_exec [of ns] show ?thesis by (auto simp: table_inv_def)
  qed
  have a: "set (getAvailableRides (exec init ms))
     = {ride. \<exists>i. getRide (exec init ms) i = Some ride \<and> status ride = pending}"
    using mem key by blast
  have b: "\<forall>ride \<in> set (getAvailableRides (exec init ms)).
         status ride = pending \<and> getRide (exec init ms) (id' ride) = Some ride"
    using mem by blast
  have c: "\<forall>i ride. getRide (exec init ms) i = Some ride \<and> status ride = pending \<longrightarrow>
         ride \<in> set (getAvailableRides (exec init ms))"
    using a by blast
  have d: "distinct (getAvailableRides (exec init ms))"
    using stored_distinct [OF table_inv_exec, of ms]
    by (simp add: getAvailableRides_def scan_filter stored_def)
  have e: "getRide (exec init ms') = getRide (exec init ms) \<longrightarrow>
         set (getAvailableRides (exec init ms')) = set (getAvailableRides (exec init ms))"
    using mem by auto
  from a b c d e show ?thesis by blast
qed


theorem available_exact_witness:
  "exec init [ex_create, ex_create2, ex_accept] = ex_two
   \<and> exec init [ex_create, ex_accept, ex_create2] = ex_two
   \<and> getAvailableRides ex_two = [ex_ride2]
   \<and> set (getAvailableRides (exec init [ex_create, ex_create2, ex_accept]))
       = {ride. \<exists>i. getRide ex_two i = Some ride \<and> status ride = pending}
   \<and> getRide ex_two 2 = Some ex_ride2 \<and> status ex_ride2 = pending
   \<and> ex_ride2 \<in> set (getAvailableRides (exec init [ex_create, ex_create2, ex_accept]))
   \<and> getRide ex_two 1 = Some ex_ride_accepted \<and> status ex_ride_accepted = accepted
   \<and> ex_ride_accepted \<notin> set (getAvailableRides (exec init [ex_create, ex_create2, ex_accept]))
   \<and> distinct (getAvailableRides (exec init [ex_create, ex_create2, ex_accept]))
   \<and> set (getAvailableRides (exec init [ex_create, ex_accept, ex_create2]))
       = set (getAvailableRides (exec init [ex_create, ex_create2, ex_accept]))"
proof -
  let ?A = "[ex_create, ex_create2, ex_accept]"
  let ?B = "[ex_create, ex_accept, ex_create2]"
  have v: "getAvailableRides ex_two = [ex_ride2]"
    by (simp add: getAvailableRides_def HashMap_vals_def ex_two_def ex_fields ex_ride2_def)
  have g2: "getRide ex_two 2 = Some ex_ride2" and g1: "getRide ex_two 1 = Some ex_ride_accepted"
    by (simp_all add: getRide_def HashMap_get_def ex_two_def)
  have p2: "status ex_ride2 = pending" by (simp add: ex_ride2_def)
  have p1: "status ex_ride_accepted = accepted" by (rule ex_fields)
  have same: "getRide (exec init ?B) = getRide (exec init ?A)" by (simp only: ex_run2)
  note t = available_exact [of ?A ?B]
  from t have a: "set (getAvailableRides (exec init ?A))
       = {ride. \<exists>i. getRide ex_two i = Some ride \<and> status ride = pending}"
    unfolding ex_run2 by blast
  from t g2 p2 have b: "ex_ride2 \<in> set (getAvailableRides (exec init ?A))"
    unfolding ex_run2 by blast
  from t p1 have c: "ex_ride_accepted \<notin> set (getAvailableRides (exec init ?A))"
    by fastforce
  from t have d: "distinct (getAvailableRides (exec init ?A))" by blast
  from t same have e: "set (getAvailableRides (exec init ?B)) = set (getAvailableRides (exec init ?A))"
    by blast
  from ex_run2 v a g2 p2 b g1 p1 c d e show ?thesis by blast
qed

end
